theory Spec2Isabelle
  imports Main "HOL-Library.Word" "HOL-Library.Multiset"
begin

section \<open>The priority queue of the transaction pool\<close>

text \<open>
  A shallow embedding of the Go type \<^verbatim>\<open>priorityQueue\<close> of package \<^verbatim>\<open>txpool\<close>
  and of its methods. Each method takes the queue and returns the queue it leaves behind,
  together with what the method returns. The mutex is not modelled: every method holds it
  from entry to exit, so the methods are atomic steps.
\<close>

subsection \<open>Machine integers, hashes and weights\<close>

type_synonym u64 = "64 word"
type_synonym u32 = "32 word"

text \<open>
  A \<^verbatim>\<open>hash.Hash\<close> is an array of 32 bytes, compared with \<^verbatim>\<open>bytes.Compare\<close>.
  On arrays of one length the lexicographic order of the bytes is the order of the
  256-bit unsigned numbers they spell in big-endian, so a hash is a 256-bit word and
  \<^verbatim>\<open>bytes.Compare(h1[:], h2[:]) < 0\<close> is \<open>h1 < h2\<close>.
\<close>

type_synonym hash = "256 word"

text \<open>
  Modelled from the spec: the type \<^verbatim>\<open>transaction.Weight\<close> (package
  \<^verbatim>\<open>go/runtime/transaction\<close> is not among the sources). The spec names three standard
  dimensions and leaves the set of dimensions open.
\<close>

datatype weight =
    WeightCount
  | WeightSizeBytes
  | WeightConsensusMessages
  | WeightOther string

text \<open>
  Modelled from the spec: the type \<^verbatim>\<open>transaction.CheckedTransaction\<close>, an immutable
  handle with a fingerprint, a priority and a weights vector. \<^verbatim>\<open>Weights()\<close> is a Go map;
  \<^verbatim>\<open>Weight(w)\<close> reads it, and a dimension the map does not have reads as 0.
\<close>

record CheckedTransaction =
  Hash :: hash
  Priority :: u64
  Weights :: "weight \<rightharpoonup> u64"

definition Weight :: "CheckedTransaction \<Rightarrow> weight \<Rightarrow> u64" where
  "Weight tx w = (case Weights tx w of None \<Rightarrow> 0 | Some v \<Rightarrow> v)"

subsection \<open>The ordered index\<close>

text \<open>
  \<^verbatim>\<open>item.Less\<close>: by priority, and by hash among equal priorities.
\<close>

definition Less :: "CheckedTransaction \<Rightarrow> CheckedTransaction \<Rightarrow> bool" where
  "Less i i2 =
     (if Priority i \<noteq> Priority i2 then Priority i < Priority i2
      else Hash i < Hash i2)"

text \<open>
  The index is a \<^verbatim>\<open>btree.BTree\<close> of the library \<^verbatim>\<open>github.com/google/btree\<close>, an ordered
  container under \<^verbatim>\<open>Less\<close>. It is modelled by its contents in ascending order. Two items
  neither of which is \<^verbatim>\<open>Less\<close> than the other are the same key for the tree.
\<close>

definition same_key :: "CheckedTransaction \<Rightarrow> CheckedTransaction \<Rightarrow> bool" where
  "same_key a b = (\<not> Less a b \<and> \<not> Less b a)"

fun ReplaceOrInsert :: "CheckedTransaction \<Rightarrow> CheckedTransaction list \<Rightarrow> CheckedTransaction list" where
  "ReplaceOrInsert x [] = [x]"
| "ReplaceOrInsert x (y # ys) =
     (if Less x y then x # y # ys
      else if Less y x then y # ReplaceOrInsert x ys
      else x # ys)"

fun Delete :: "CheckedTransaction \<Rightarrow> CheckedTransaction list \<Rightarrow> CheckedTransaction list" where
  "Delete x [] = []"
| "Delete x (y # ys) = (if same_key x y then ys else y # Delete x ys)"

definition Min_item :: "CheckedTransaction list \<Rightarrow> CheckedTransaction option" where
  "Min_item idx = (case idx of [] \<Rightarrow> None | x # _ \<Rightarrow> Some x)"

text \<open>\<^verbatim>\<open>Descend\<close> visits every item, greatest first.\<close>

definition Descend :: "CheckedTransaction list \<Rightarrow> CheckedTransaction list" where
  "Descend idx = rev idx"

text \<open>
  \<^verbatim>\<open>DescendLessOrEqual(pivot, ...)\<close> visits the items that are not greater than the pivot,
  greatest first; with a nil pivot it visits every item.
\<close>

definition DescendLessOrEqual ::
  "CheckedTransaction option \<Rightarrow> CheckedTransaction list \<Rightarrow> CheckedTransaction list" where
  "DescendLessOrEqual pivot idx =
     (case pivot of
        None \<Rightarrow> rev idx
      | Some p \<Rightarrow> rev (filter (\<lambda>i. \<not> Less p i) idx))"

subsection \<open>The queue\<close>

text \<open>
  \<^verbatim>\<open>transactions\<close> is a Go map from hashes to items. \<^verbatim>\<open>weightLimits\<close> is a Go map that
  the code ranges over; it is kept as the list of its entries. \<^verbatim>\<open>poolWeights\<close> is a Go
  map that the code only reads and updates at single keys, where an absent key reads as 0
  and is never told apart from a key holding 0; it is kept as a total function.
\<close>

record priorityQueue =
  priorityIndex :: "CheckedTransaction list"
  transactions :: "hash \<rightharpoonup> CheckedTransaction"
  maxTxPoolSize :: u64
  poolWeights :: "weight \<Rightarrow> u64"
  weightLimits :: "(weight \<times> u64) list"
  lowestPriority :: u64

text \<open>
  What a method reports besides its result. The first three are the errors \<^verbatim>\<open>Add\<close>
  returns; the last two are the panics of the size checks, after which the queue stays as
  the method had changed it.
\<close>

datatype error =
    PoolFull
  | CallTooLarge
  | AlreadyExists
  | InconsistentIndexMap
  | InconsistentMapCount

definition newPriorityQueue :: "u64 \<Rightarrow> (weight \<times> u64) list \<Rightarrow> priorityQueue" where
  "newPriorityQueue maxPoolSize limits =
     \<lparr> priorityIndex = [],
       transactions = Map.empty,
       maxTxPoolSize = maxPoolSize,
       poolWeights = (\<lambda>_. 0),
       weightLimits = limits,
       lowestPriority = 0 \<rparr>"

definition isQueuedLocked :: "priorityQueue \<Rightarrow> hash \<Rightarrow> bool" where
  "isQueuedLocked q txHash = (transactions q txHash \<noteq> None)"

text \<open>
  \<^verbatim>\<open>checkTxLocked\<close>: the loop returns at the first limit the transaction exceeds, with
  the same error whichever it is, so the order of the range does not matter.
\<close>

definition checkTxLocked :: "priorityQueue \<Rightarrow> CheckedTransaction \<Rightarrow> error option" where
  "checkTxLocked q tx =
     (if list_ex (\<lambda>(w, l). Weight tx w > l) (weightLimits q) then Some CallTooLarge
      else if isQueuedLocked q (Hash tx) then Some AlreadyExists
      else None)"

text \<open>
  The size checks that end \<^verbatim>\<open>Add\<close> and \<^verbatim>\<open>removeTxsLocked\<close>. \<^verbatim>\<open>len\<close> of the map and
  of the tree are compared as integers, then the map's converted to \<^verbatim>\<open>uint64\<close> with the
  count weight of the pool.
\<close>

definition checkSizes :: "priorityQueue \<Rightarrow> error option" where
  "checkSizes q =
     (if card (dom (transactions q)) \<noteq> length (priorityIndex q) then Some InconsistentIndexMap
      else if (of_nat (card (dom (transactions q))) :: u64) \<noteq> poolWeights q WeightCount
        then Some InconsistentMapCount
      else None)"

text \<open>
  The loop of \<^verbatim>\<open>removeTxsLocked\<close>. The inner range subtracts each weight of the item from
  the pool's weight of that dimension; a dimension the item does not have is left alone,
  which is subtracting 0.
\<close>

fun removeItems :: "priorityQueue \<Rightarrow> CheckedTransaction list \<Rightarrow> priorityQueue" where
  "removeItems q [] = q"
| "removeItems q (i # items) =
     (if transactions q (Hash i) = None then removeItems q items
      else removeItems
        (q\<lparr> transactions := (transactions q)(Hash i := None),
            priorityIndex := Delete i (priorityIndex q),
            poolWeights := (\<lambda>k. poolWeights q k - Weight i k) \<rparr>) items)"

definition removeTxsLocked :: "priorityQueue \<Rightarrow> CheckedTransaction list \<Rightarrow> error option \<times> priorityQueue" where
  "removeTxsLocked q items =
     (let q1 = removeItems q items;
          q2 = (if length items > 0
                then (case Min_item (priorityIndex q1) of
                        Some lpi \<Rightarrow> q1\<lparr> lowestPriority := Priority lpi \<rparr>
                      | None \<Rightarrow> q1\<lparr> lowestPriority := 0 \<rparr>)
                else q1)
      in (checkSizes q2, q2))"

text \<open>The part of \<^verbatim>\<open>Add\<close> after the removal of the lowest item.\<close>

definition insertTx :: "priorityQueue \<Rightarrow> CheckedTransaction \<Rightarrow> error option \<times> priorityQueue" where
  "insertTx q tx =
     (let q1 = q\<lparr> priorityIndex := ReplaceOrInsert tx (priorityIndex q),
                 transactions := (transactions q)(Hash tx \<mapsto> tx),
                 poolWeights := (\<lambda>k. poolWeights q k + Weight tx k) \<rparr>;
          q2 = (if Priority tx < lowestPriority q1
                then q1\<lparr> lowestPriority := Priority tx \<rparr> else q1)
      in (checkSizes q2, q2))"

definition Add :: "priorityQueue \<Rightarrow> CheckedTransaction \<Rightarrow> error option \<times> priorityQueue" where
  "Add q tx =
     (let needsPop = (poolWeights q WeightCount \<ge> maxTxPoolSize q) in
      if needsPop \<and> Priority tx \<le> lowestPriority q then (Some PoolFull, q)
      else (case checkTxLocked q tx of
              Some err \<Rightarrow> (Some err, q)
            | None \<Rightarrow>
                if needsPop then
                  (case Min_item (priorityIndex q) of
                     Some lpi \<Rightarrow>
                       (case removeTxsLocked q [lpi] of
                          (Some p, q') \<Rightarrow> (Some p, q')
                        | (None, q') \<Rightarrow> insertTx q' tx)
                   | None \<Rightarrow> insertTx q tx)
                else insertTx q tx))"

definition RemoveTxBatch :: "priorityQueue \<Rightarrow> hash list \<Rightarrow> error option \<times> priorityQueue" where
  "RemoveTxBatch q batch =
     removeTxsLocked q (List.map_filter (\<lambda>txHash. transactions q txHash) batch)"

definition IsQueued :: "priorityQueue \<Rightarrow> hash \<Rightarrow> bool" where
  "IsQueued q txHash = isQueuedLocked q txHash"

definition Size :: "priorityQueue \<Rightarrow> u64" where
  "Size q = poolWeights q WeightCount"

definition UpdateMaxPoolSize :: "priorityQueue \<Rightarrow> u64 \<Rightarrow> priorityQueue" where
  "UpdateMaxPoolSize q maxPoolSize = q\<lparr> maxTxPoolSize := maxPoolSize \<rparr>"

definition UpdateWeightLimits :: "priorityQueue \<Rightarrow> (weight \<times> u64) list \<Rightarrow> priorityQueue" where
  "UpdateWeightLimits q limits = q\<lparr> weightLimits := limits \<rparr>"

definition Clear :: "priorityQueue \<Rightarrow> priorityQueue" where
  "Clear q =
     q\<lparr> priorityIndex := [],
        transactions := Map.empty,
        poolWeights := (\<lambda>_. 0),
        lowestPriority := 0 \<rparr>"

subsection \<open>Batches\<close>

text \<open>
  The map \<^verbatim>\<open>minWeights\<close> of \<^verbatim>\<open>GetBatch\<close>; a dimension it does not have reads as 0.
\<close>

definition minWeights :: "weight \<Rightarrow> u64" where
  "minWeights w =
     (case w of
        WeightCount \<Rightarrow> 1
      | WeightSizeBytes \<Rightarrow> 10
      | WeightConsensusMessages \<Rightarrow> 0
      | WeightOther _ \<Rightarrow> 0)"

text \<open>
  What the callback of \<^verbatim>\<open>Descend\<close> in \<^verbatim>\<open>GetBatch\<close> decides for one item: \<open>Drop\<close>
  (heavier than a limit: put on the removal list, go on), \<open>Stop\<close> (nothing more can fit:
  end the descent), \<open>Skip\<close> (would overflow the batch: go on) or \<open>Fits\<close>.
\<close>

datatype verdict = Drop | Stop | Skip | Fits

text \<open>
  The range over \<^verbatim>\<open>weightLimits\<close> inside the callback returns at the first dimension
  that decides, so its outcome depends on the order in which Go yields the entries. The
  entries come in the order of the list given.
\<close>

fun fitsBatch :: "(weight \<times> u64) list \<Rightarrow> (weight \<rightharpoonup> u64) \<Rightarrow> CheckedTransaction \<Rightarrow> verdict" where
  "fitsBatch [] batchWeights item = Fits"
| "fitsBatch ((w, limit) # rest) batchWeights item =
     (let batchWeight = (case batchWeights w of None \<Rightarrow> 0 | Some b \<Rightarrow> b);
          txW = Weight item w
      in if txW > limit then Drop
         else if limit - batchWeight < minWeights w then Stop
         else if batchWeight + txW > limit then Skip
         else fitsBatch rest batchWeights item)"

text \<open>
  Adding an item to the batch: each weight of the item is added to the batch weight of
  its dimension when \<^verbatim>\<open>batchWeights\<close> has that dimension.
\<close>

definition addBatchWeights :: "(weight \<rightharpoonup> u64) \<Rightarrow> CheckedTransaction \<Rightarrow> (weight \<rightharpoonup> u64)" where
  "addBatchWeights batchWeights item =
     (\<lambda>w. case batchWeights w of None \<Rightarrow> None | Some b \<Rightarrow> Some (b + Weight item w))"

text \<open>
  The descent of \<^verbatim>\<open>GetBatch\<close> over the items, greatest first. \<open>rng item\<close> is the order
  in which the range statement yields the entries of \<^verbatim>\<open>weightLimits\<close> while the callback
  runs on \<open>item\<close>. The state is the batch, the batch weights and the removal list.
\<close>

fun descendBatch ::
  "(CheckedTransaction \<Rightarrow> (weight \<times> u64) list) \<Rightarrow> CheckedTransaction list \<Rightarrow>
   CheckedTransaction list \<times> (weight \<rightharpoonup> u64) \<times> CheckedTransaction list \<Rightarrow>
   CheckedTransaction list \<times> (weight \<rightharpoonup> u64) \<times> CheckedTransaction list" where
  "descendBatch rng [] st = st"
| "descendBatch rng (item # items) (batch, batchWeights, toRemove) =
     (case fitsBatch (rng item) batchWeights item of
        Drop \<Rightarrow> descendBatch rng items (batch, batchWeights, toRemove @ [item])
      | Stop \<Rightarrow> (batch, batchWeights, toRemove)
      | Skip \<Rightarrow> descendBatch rng items (batch, batchWeights, toRemove)
      | Fits \<Rightarrow> descendBatch rng items
                 (batch @ [item], addBatchWeights batchWeights item, toRemove))"

text \<open>
  An order \<open>rng\<close> is one Go can take when, for every item, it lists the entries of
  \<^verbatim>\<open>weightLimits\<close>, each once.
\<close>

definition range_of :: "priorityQueue \<Rightarrow> (CheckedTransaction \<Rightarrow> (weight \<times> u64) list) \<Rightarrow> bool" where
  "range_of q rng = (\<forall>item. mset (rng item) = mset (weightLimits q))"

definition GetBatch ::
  "(CheckedTransaction \<Rightarrow> (weight \<times> u64) list) \<Rightarrow> priorityQueue \<Rightarrow> bool \<Rightarrow>
   (error + CheckedTransaction list) \<times> priorityQueue" where
  "GetBatch rng q force =
     (let weightLimitReached = list_ex (\<lambda>(k, v). poolWeights q k \<ge> v) (weightLimits q) in
      if \<not> weightLimitReached \<and> \<not> force then (Inr [], q)
      else
        (let batchWeights = map_of (map (\<lambda>(w, _). (w, 0)) (weightLimits q)) in
         case descendBatch rng (Descend (priorityIndex q)) ([], batchWeights, []) of
           (batch, _, toRemove) \<Rightarrow>
             (case removeTxsLocked q toRemove of
                (Some p, q') \<Rightarrow> (Inl p, q')
              | (None, q') \<Rightarrow> (Inr batch, q'))))"

text \<open>
  The descent of \<^verbatim>\<open>GetPrioritizedBatch\<close>. An item heavier than some limit goes on the
  removal list whatever the order of the range. \<^verbatim>\<open>txHash.Equal(offset)\<close> is false for a
  nil offset. The length of the batch is converted to \<^verbatim>\<open>uint32\<close> before it is compared
  with the limit, after the item has been appended.
\<close>

fun descendPrioritized ::
  "(weight \<times> u64) list \<Rightarrow> hash option \<Rightarrow> u32 \<Rightarrow> CheckedTransaction list \<Rightarrow>
   CheckedTransaction list \<times> CheckedTransaction list \<Rightarrow>
   CheckedTransaction list \<times> CheckedTransaction list" where
  "descendPrioritized limits offset limit [] st = st"
| "descendPrioritized limits offset limit (item # items) (batch, toRemove) =
     (if list_ex (\<lambda>(w, l). Weight item w > l) limits
        then descendPrioritized limits offset limit items (batch, toRemove @ [item])
      else if offset = Some (Hash item)
        then descendPrioritized limits offset limit items (batch, toRemove)
      else if (of_nat (length (batch @ [item])) :: u32) \<ge> limit
        then (batch @ [item], toRemove)
      else descendPrioritized limits offset limit items (batch @ [item], toRemove))"

definition prioritizedFrom ::
  "priorityQueue \<Rightarrow> CheckedTransaction option \<Rightarrow> hash option \<Rightarrow> u32 \<Rightarrow>
   (error + CheckedTransaction list) \<times> priorityQueue" where
  "prioritizedFrom q offsetItem offset limit =
     (case descendPrioritized (weightLimits q) offset limit
             (DescendLessOrEqual offsetItem (priorityIndex q)) ([], []) of
        (batch, toRemove) \<Rightarrow>
          (case removeTxsLocked q toRemove of
             (Some p, q') \<Rightarrow> (Inl p, q')
           | (None, q') \<Rightarrow> (Inr batch, q')))"

definition GetPrioritizedBatch ::
  "priorityQueue \<Rightarrow> hash option \<Rightarrow> u32 \<Rightarrow> (error + CheckedTransaction list) \<times> priorityQueue" where
  "GetPrioritizedBatch q offset limit =
     (case offset of
        None \<Rightarrow> prioritizedFrom q None offset limit
      | Some h \<Rightarrow>
          (case transactions q h of
             None \<Rightarrow> (Inr [], q)
           | Some offsetItem \<Rightarrow> prioritizedFrom q (Some offsetItem) offset limit))"

subsection \<open>Well-formed and reachable queues\<close>

text \<open>
  The two indices agree when the tree is in ascending order, every item of the tree is
  the entry of the map at its own hash, and the map has no other key.
\<close>

definition indices_agree :: "priorityQueue \<Rightarrow> bool" where
  "indices_agree q =
     (sorted_wrt Less (priorityIndex q) \<and>
      (\<forall>t \<in> set (priorityIndex q). transactions q (Hash t) = Some t) \<and>
      dom (transactions q) = Hash ` set (priorityIndex q))"

text \<open>
  The count weight is in step when every admitted item weighs 1 in the count dimension
  and the count weight of the pool is the number of items as a \<^verbatim>\<open>uint64\<close>.
\<close>

definition count_in_step :: "priorityQueue \<Rightarrow> bool" where
  "count_in_step q =
     ((\<forall>t \<in> set (priorityIndex q). Weight t WeightCount = 1) \<and>
      poolWeights q WeightCount = of_nat (length (priorityIndex q)))"

text \<open>The invariant that every method keeps.\<close>

definition queue_inv :: "priorityQueue \<Rightarrow> bool" where
  "queue_inv q = (indices_agree q \<and> count_in_step q)"

text \<open>
  The queues that the public methods produce from a new queue, when every transaction
  given to \<^verbatim>\<open>Add\<close> has count weight 1, as the transaction source guarantees. The methods
  \<^verbatim>\<open>GetKnownBatch\<close>, \<^verbatim>\<open>GetTransactions\<close>, \<^verbatim>\<open>IsQueued\<close> and \<^verbatim>\<open>Size\<close> only read the queue.
\<close>

inductive reachable :: "priorityQueue \<Rightarrow> bool" where
  reach_new: "reachable (newPriorityQueue maxPoolSize limits)"
| reach_Add: "reachable q \<Longrightarrow> Weight tx WeightCount = 1 \<Longrightarrow> reachable (snd (Add q tx))"
| reach_GetBatch: "reachable q \<Longrightarrow> range_of q rng \<Longrightarrow> reachable (snd (GetBatch rng q force))"
| reach_GetPrioritizedBatch: "reachable q \<Longrightarrow> reachable (snd (GetPrioritizedBatch q offset limit))"
| reach_RemoveTxBatch: "reachable q \<Longrightarrow> reachable (snd (RemoveTxBatch q batch))"
| reach_UpdateMaxPoolSize: "reachable q \<Longrightarrow> reachable (UpdateMaxPoolSize q maxPoolSize)"
| reach_UpdateWeightLimits: "reachable q \<Longrightarrow> reachable (UpdateWeightLimits q limits)"
| reach_Clear: "reachable q \<Longrightarrow> reachable (Clear q)"

subsection \<open>Transactions and queues of the scenarios\<close>

text \<open>
  A transaction as the transaction source builds it: count weight 1 and the size of the
  payload as its \<^verbatim>\<open>size_bytes\<close> weight.
\<close>

definition checkedTx :: "hash \<Rightarrow> u64 \<Rightarrow> u64 \<Rightarrow> CheckedTransaction" where
  "checkedTx h p sz =
     \<lparr> Hash = h, Priority = p, Weights = [WeightCount \<mapsto> 1, WeightSizeBytes \<mapsto> sz] \<rparr>"

text \<open>A transaction that also emits consensus messages.\<close>

definition messageTx :: "hash \<Rightarrow> u64 \<Rightarrow> u64 \<Rightarrow> CheckedTransaction" where
  "messageTx h p msgs =
     \<lparr> Hash = h, Priority = p,
       Weights = [WeightCount \<mapsto> 1, WeightSizeBytes \<mapsto> 10, WeightConsensusMessages \<mapsto> msgs] \<rparr>"

text \<open>Calling \<^verbatim>\<open>Add\<close> on each transaction of a list in turn.\<close>

definition addAll :: "priorityQueue \<Rightarrow> CheckedTransaction list \<Rightarrow> priorityQueue" where
  "addAll q txs = fold (\<lambda>tx q'. snd (Add q' tx)) txs q"

definition S5_limits :: "(weight \<times> u64) list" where
  "S5_limits = [(WeightCount, 10), (WeightSizeBytes, 100)]"

definition S5_txs :: "CheckedTransaction list" where
  "S5_txs =
     [checkedTx 1 50 90, checkedTx 2 40 30, checkedTx 3 30 20, checkedTx 4 20 5,
      checkedTx 5 10 5]"

definition S5_queue :: priorityQueue where
  "S5_queue = addAll (newPriorityQueue 10 S5_limits) S5_txs"

text \<open>Scenario S2: a pool of size 2 holding two transactions of priority 7.\<close>

definition S2_queue :: priorityQueue where
  "S2_queue = addAll (newPriorityQueue 2 []) [checkedTx 1 7 10, checkedTx 2 7 10]"

text \<open>Scenario S3: the limits under which a transaction of 1001 bytes is too large.\<close>

definition S3_queue :: priorityQueue where
  "S3_queue = newPriorityQueue 10 [(WeightCount, 100), (WeightSizeBytes, 1000)]"

text \<open>
  A pool whose only limit is on consensus messages, at the greatest \<^verbatim>\<open>uint64\<close>, holding a
  transaction that weighs as much as the limit and one that weighs 2.
\<close>

definition wide_limits :: "(weight \<times> u64) list" where
  "wide_limits = [(WeightConsensusMessages, 18446744073709551615)]"

definition wide_queue :: priorityQueue where
  "wide_queue =
     addAll (newPriorityQueue 10 wide_limits)
       [messageTx 1 2 18446744073709551615, messageTx 2 1 2]"

text \<open>A pool without weight limits holding one transaction.\<close>

definition single_queue :: priorityQueue where
  "single_queue = addAll (newPriorityQueue 10 []) [checkedTx 1 5 10]"


text \<open>A pool of size 1 that is full.\<close>

definition full_queue :: priorityQueue where
  "full_queue = addAll (newPriorityQueue 1 []) [checkedTx 1 5 10]"


text \<open>A pool of size 3 holding two transactions, of priorities 5 and 9.\<close>

definition pair_queue :: priorityQueue where
  "pair_queue = addAll (newPriorityQueue 3 []) [checkedTx 1 5 10, checkedTx 2 9 10]"

subsection \<open>Measures of a batch\<close>

text \<open>A batch is in order when no transaction has a higher priority than one before it.\<close>

definition by_priority :: "CheckedTransaction \<Rightarrow> CheckedTransaction \<Rightarrow> bool" where
  "by_priority a b = (Priority b \<le> Priority a)"

text \<open>
  The weight of a batch in a dimension, as a natural number, and the invariant of the
  descent of \<^verbatim>\<open>GetBatch\<close>: in every limited dimension the batch weight kept by the code is
  within the limit and is the weight of the batch.
\<close>

definition batch_weight :: "CheckedTransaction list \<Rightarrow> weight \<Rightarrow> nat" where
  "batch_weight batch d = sum_list (map (\<lambda>t. unat (Weight t d)) batch)"

definition batch_within ::
  "(weight \<times> u64) list \<Rightarrow> CheckedTransaction list \<Rightarrow> (weight \<rightharpoonup> u64) \<Rightarrow> bool" where
  "batch_within limits batch batchWeights =
     (\<forall>(d, l) \<in> set limits. \<exists>b. batchWeights d = Some b \<and> b \<le> l \<and> unat b = batch_weight batch d)"

text \<open>The errors that \<^verbatim>\<open>Add\<close> returns, as opposed to the panics.\<close>

definition returned_errors :: "error option set" where
  "returned_errors = {Some PoolFull, Some CallTooLarge, Some AlreadyExists}"

section \<open>Evaluation\<close>

lemmas queue_eval =
  Add_def insertTx_def checkTxLocked_def isQueuedLocked_def checkSizes_def removeTxsLocked_def
  Min_item_def newPriorityQueue_def Weight_def Less_def same_key_def checkedTx_def messageTx_def
  addAll_def card_insert_if Let_def word_le_nat_alt word_less_nat_alt

section \<open>Frame of Clear\<close>

text \<open>
  Claim C10. \<^verbatim>\<open>Clear\<close> empties both indices and puts the pool weights and the lowest
  priority back to the values of a new queue, and it leaves the weight limits and the
  maximum pool size as they were: the cleared queue is the new queue of the limits
  configured before, so every later admission and batch is governed by them.
\<close>

theorem Clear_frame:
  "priorityIndex (Clear q) = [] \<and>
   transactions (Clear q) = Map.empty \<and>
   poolWeights (Clear q) = (\<lambda>_. 0) \<and>
   lowestPriority (Clear q) = 0 \<and>
   weightLimits (Clear q) = weightLimits q \<and>
   maxTxPoolSize (Clear q) = maxTxPoolSize q \<and>
   Clear q = newPriorityQueue (maxTxPoolSize q) (weightLimits q)"
  by (simp add: Clear_def newPriorityQueue_def)

section \<open>Errors of Add leave the queue alone\<close>

lemma checkSizes_outcome: "checkSizes q \<notin> returned_errors"
  by (simp add: checkSizes_def returned_errors_def)

lemma insertTx_outcome: "fst (insertTx q tx) \<notin> returned_errors"
  by (simp add: insertTx_def Let_def checkSizes_outcome)

lemma removeTxsLocked_outcome: "fst (removeTxsLocked q items) \<notin> returned_errors"
  by (simp add: removeTxsLocked_def Let_def checkSizes_outcome)

text \<open>
  Claim C6. Whenever \<^verbatim>\<open>Add\<close> returns one of its errors (pool full, call too large,
  already exists), the whole queue (both indices, the pool weights, the lowest priority,
  the maximum size and the limits) is what it was before the call.
\<close>

theorem Add_error_atomic:
  assumes "fst (Add q tx) \<in> {Some PoolFull, Some CallTooLarge, Some AlreadyExists}"
  shows "snd (Add q tx) = q"
proof (cases "maxTxPoolSize q \<le> poolWeights q WeightCount \<and> Priority tx \<le> lowestPriority q")
  case True
  then show ?thesis by (simp add: Add_def)
next
  case full: False
  show ?thesis
  proof (cases "checkTxLocked q tx")
    case (Some err)
    with full show ?thesis by (auto simp: Add_def Let_def)
  next
    case None
    have "fst (Add q tx) \<notin> returned_errors"
    proof (cases "maxTxPoolSize q \<le> poolWeights q WeightCount")
      case False
      with None show ?thesis by (simp add: Add_def insertTx_outcome)
    next
      case pop: True
      show ?thesis
      proof (cases "Min_item (priorityIndex q)")
        case empty: None
        with None pop full show ?thesis by (simp add: Add_def insertTx_outcome)
      next
        case (Some lpi)
        obtain p q' where r: "removeTxsLocked q [lpi] = (p, q')"
          by (cases "removeTxsLocked q [lpi]")
        have "p \<notin> returned_errors"
          using removeTxsLocked_outcome [of q "[lpi]"] r by simp
        with None pop full Some r show ?thesis
          by (cases p) (simp_all add: Add_def insertTx_outcome)
      qed
    qed
    with assms show ?thesis by (simp add: returned_errors_def)
  qed
qed

text \<open>Scenario S3: the transaction of 1001 bytes is refused and the pool is unchanged.\<close>

theorem Add_error_atomic_witness:
  "fst (Add S3_queue (checkedTx 1 5 1001)) = Some CallTooLarge \<and>
   snd (Add S3_queue (checkedTx 1 5 1001)) = S3_queue"
proof -
  have e: "fst (Add S3_queue (checkedTx 1 5 1001)) = Some CallTooLarge"
    by (simp add: S3_queue_def queue_eval)
  then have "fst (Add S3_queue (checkedTx 1 5 1001)) \<in> {Some PoolFull, Some CallTooLarge, Some AlreadyExists}"
    by simp
  from Add_error_atomic [OF this] e show ?thesis by simp
qed

section \<open>The lowest priority after an admission into an empty queue\<close>

text \<open>
  Claim C1, at the input where the code departs from it. The first transaction admitted
  into a new queue has priority 5; \<^verbatim>\<open>Add\<close> succeeds, the queue holds that transaction
  alone, and \<^verbatim>\<open>lowestPriority\<close> is still 0: the comparison with the cached value never
  lowers a cache that holds 0.
\<close>

theorem Add_to_empty_keeps_lowestPriority_zero:
  "fst (Add (newPriorityQueue 3 []) (checkedTx 1 5 10)) = None \<and>
   priorityIndex (snd (Add (newPriorityQueue 3 []) (checkedTx 1 5 10))) = [checkedTx 1 5 10] \<and>
   Priority (checkedTx 1 5 10) = 5 \<and>
   lowestPriority (snd (Add (newPriorityQueue 3 []) (checkedTx 1 5 10))) = 0"
  by (simp add: queue_eval)

section \<open>Scenario S2: equal priority at capacity\<close>

text \<open>
  Claim C2, at the scenario itself. With a maximum size of 2 and no weight limits, T1 and
  T2 of priority 7 are admitted; \<^verbatim>\<open>lowestPriority\<close> is then 0, so T3 of priority 7 is
  admitted too, and T1, the lowest item by hash, is evicted for it.
\<close>

theorem S2_third_add_succeeds:
  "priorityIndex S2_queue = [checkedTx 1 7 10, checkedTx 2 7 10] \<and>
   lowestPriority S2_queue = 0 \<and>
   fst (Add S2_queue (checkedTx 3 7 10)) = None \<and>
   priorityIndex (snd (Add S2_queue (checkedTx 3 7 10))) = [checkedTx 2 7 10, checkedTx 3 7 10] \<and>
   transactions (snd (Add S2_queue (checkedTx 3 7 10))) 1 = None"
  by (simp add: S2_queue_def queue_eval)

section \<open>Scenario S5: packing a batch by weight\<close>

lemma mset_eq_pair:
  assumes "mset xs = mset [a, b]"
  shows "xs = [a, b] \<or> xs = [b, a]"
proof -
  from assms have "length xs = 2"
    using mset_eq_length by fastforce
  then obtain x y where xs: "xs = [x, y]"
    by (auto simp: numeral_2_eq_2 length_Suc_conv)
  with assms show ?thesis
    by (auto simp: add_eq_conv_ex)
qed

text \<open>The queue of the scenario holds the five transactions.\<close>

lemma S5_queue_eq:
  "S5_queue =
     \<lparr> priorityIndex = rev S5_txs,
       transactions =
         [1 \<mapsto> checkedTx 1 50 90, 2 \<mapsto> checkedTx 2 40 30, 3 \<mapsto> checkedTx 3 30 20,
          4 \<mapsto> checkedTx 4 20 5, 5 \<mapsto> checkedTx 5 10 5],
       maxTxPoolSize = 10,
       poolWeights = (\<lambda>k. if k = WeightCount then 5 else if k = WeightSizeBytes then 150 else 0),
       weightLimits = S5_limits,
       lowestPriority = 0 \<rparr>"
  by (simp add: S5_queue_def S5_txs_def S5_limits_def queue_eval fun_eq_iff)

text \<open>What the callback decides for each of the five, in either order of the two limits.\<close>

lemma S5_verdicts:
  assumes "mset r = mset S5_limits"
  shows "fitsBatch r [WeightCount \<mapsto> 0, WeightSizeBytes \<mapsto> 0] (checkedTx 1 50 90) = Fits"
    and "fitsBatch r [WeightCount \<mapsto> 1, WeightSizeBytes \<mapsto> 90] (checkedTx 2 40 30) = Skip"
    and "fitsBatch r [WeightCount \<mapsto> 1, WeightSizeBytes \<mapsto> 90] (checkedTx 3 30 20) = Skip"
    and "fitsBatch r [WeightCount \<mapsto> 1, WeightSizeBytes \<mapsto> 90] (checkedTx 4 20 5) = Fits"
    and "fitsBatch r [WeightCount \<mapsto> 2, WeightSizeBytes \<mapsto> 95] (checkedTx 5 10 5) = Stop"
  using mset_eq_pair [OF assms [unfolded S5_limits_def]]
  by (auto simp: Weight_def checkedTx_def minWeights_def Let_def word_le_nat_alt word_less_nat_alt)

lemma S5_add_first:
  "addBatchWeights [WeightCount \<mapsto> 0, WeightSizeBytes \<mapsto> 0] (checkedTx 1 50 90) =
   [WeightCount \<mapsto> 1, WeightSizeBytes \<mapsto> 90]"
  by (auto simp: addBatchWeights_def fun_eq_iff Weight_def checkedTx_def)

lemma S5_add_fourth:
  "addBatchWeights [WeightCount \<mapsto> 1, WeightSizeBytes \<mapsto> 90] (checkedTx 4 20 5) =
   [WeightCount \<mapsto> 2, WeightSizeBytes \<mapsto> 95]"
  by (auto simp: addBatchWeights_def fun_eq_iff Weight_def checkedTx_def)

text \<open>
  Claim C4. With the limits \<open>count: 10, size_bytes: 100\<close> and the five transactions of
  sizes 90, 30, 20, 5, 5 and priorities 50, 40, 30, 20, 10 admitted, \<^verbatim>\<open>GetBatch(true)\<close>
  returns the transaction of priority 50 and then the one of priority 20, and the pool
  is left as it was, in whatever order Go ranges over the two limits.
\<close>

theorem S5_batch:
  assumes "range_of S5_queue rng"
  shows "GetBatch rng S5_queue True = (Inr [checkedTx 1 50 90, checkedTx 4 20 5], S5_queue)"
proof -
  have r: "mset (rng t) = mset S5_limits" for t
    using assms by (simp add: range_of_def S5_queue_eq)
  have "descendBatch rng (rev (rev S5_txs)) ([], [WeightCount \<mapsto> 0, WeightSizeBytes \<mapsto> 0], [])
      = ([checkedTx 1 50 90, checkedTx 4 20 5], [WeightCount \<mapsto> 2, WeightSizeBytes \<mapsto> 95], [])"
    by (simp add: S5_txs_def S5_verdicts [OF r] S5_add_first S5_add_fourth)
  moreover have "map_of (map (\<lambda>(w, _). (w, 0)) S5_limits) =
      [WeightCount \<mapsto> (0::u64), WeightSizeBytes \<mapsto> 0]"
    by (auto simp: S5_limits_def fun_eq_iff)
  moreover have "removeTxsLocked S5_queue [] = (None, S5_queue)"
    by (simp add: removeTxsLocked_def checkSizes_def S5_queue_eq S5_txs_def card_insert_if)
  ultimately show ?thesis
    by (simp add: GetBatch_def Descend_def) (simp add: S5_queue_eq)
qed

theorem S5_batch_witness:
  "range_of S5_queue (\<lambda>_. S5_limits) \<and>
   GetBatch (\<lambda>_. S5_limits) S5_queue True =
     (Inr [checkedTx 1 50 90, checkedTx 4 20 5], S5_queue)"
proof -
  have h: "range_of S5_queue (\<lambda>_. S5_limits)"
    by (simp add: range_of_def S5_queue_eq)
  from h S5_batch [OF h] show ?thesis by simp
qed

section \<open>A batch heavier than its limit\<close>

text \<open>
  Claim C3, at an input where the code departs from it. The only limit is
  \<open>2^64 - 1\<close> consensus messages. The pool holds a transaction of that weight and one of
  weight 2. The sum \<^verbatim>\<open>batchWeight+txW\<close> wraps around to 1, which is not above the limit,
  so \<^verbatim>\<open>GetBatch(true)\<close> returns both, and their weights add up to more than the limit.
\<close>

theorem GetBatch_sum_wraps:
  "GetBatch (\<lambda>_. wide_limits) wide_queue True =
     (Inr [messageTx 1 2 18446744073709551615, messageTx 2 1 2], wide_queue) \<and>
   weightLimits wide_queue = [(WeightConsensusMessages, 18446744073709551615)] \<and>
   unat (Weight (messageTx 1 2 18446744073709551615) WeightConsensusMessages) +
   unat (Weight (messageTx 2 1 2) WeightConsensusMessages) >
   unat (18446744073709551615 :: u64)"
  by (simp add: wide_queue_def wide_limits_def GetBatch_def Descend_def minWeights_def
      addBatchWeights_def queue_eval)

text \<open>
  The bound holds where the sums cannot wrap around: when every limit is below \<open>2^63\<close>,
  the weight of the batch in each limited dimension is at most the limit, in whatever
  order Go ranges over the limits.
\<close>

lemma fitsBatch_Fits:
  "fitsBatch r batchWeights item = Fits \<Longrightarrow> (w, l) \<in> set r \<Longrightarrow>
   Weight item w \<le> l \<and> (case batchWeights w of None \<Rightarrow> 0 | Some b \<Rightarrow> b) + Weight item w \<le> l"
proof (induction r)
  case Nil
  then show ?case by simp
next
  case (Cons e rest)
  obtain w' limit where e: "e = (w', limit)" by (cases e)
  from Cons.prems(1) have h: "Weight item w' \<le> limit"
    "(case batchWeights w' of None \<Rightarrow> 0 | Some b \<Rightarrow> b) + Weight item w' \<le> limit"
    "fitsBatch rest batchWeights item = Fits"
    unfolding e by (simp_all add: Let_def not_less split: if_splits)
  show ?case
  proof (cases "(w, l) = (w', limit)")
    case True
    with h show ?thesis by simp
  next
    case False
    with Cons.prems(2) e have "(w, l) \<in> set rest" by auto
    with Cons.IH h(3) show ?thesis by simp
  qed
qed

lemma batch_within_step:
  assumes small: "\<forall>(d, l) \<in> set limits. unat l < 2 ^ 63"
    and r: "set r = set limits"
    and J: "batch_within limits batch batchWeights"
    and fits: "fitsBatch r batchWeights item = Fits"
  shows "batch_within limits (batch @ [item]) (addBatchWeights batchWeights item)"
  unfolding batch_within_def
proof (intro ballI, clarify)
  fix d l assume dl: "(d, l) \<in> set limits"
  with J obtain b where b: "batchWeights d = Some b" "b \<le> l" "unat b = batch_weight batch d"
    by (auto simp: batch_within_def)
  from dl r have "(d, l) \<in> set r" by simp
  from fitsBatch_Fits [OF fits this] b have w: "Weight item d \<le> l" and s: "b + Weight item d \<le> l"
    by simp_all
  from small dl have l: "unat l < 2 ^ 63" by auto
  from b(2) w l have "unat b + unat (Weight item d) < 2 ^ 64"
    by (simp add: word_le_nat_alt)
  then have "unat (b + Weight item d) = unat b + unat (Weight item d)"
    using unat_add_lem [of b "Weight item d"] by simp
  with b s show "\<exists>b'. addBatchWeights batchWeights item d = Some b' \<and> b' \<le> l \<and>
      unat b' = batch_weight (batch @ [item]) d"
    by (simp add: addBatchWeights_def batch_weight_def)
qed

lemma descendBatch_within:
  assumes small: "\<forall>(d, l) \<in> set limits. unat l < 2 ^ 63"
    and r: "\<forall>item. set (rng item) = set limits"
  shows "batch_within limits (fst st) (fst (snd st)) \<Longrightarrow>
    batch_within limits (fst (descendBatch rng items st)) (fst (snd (descendBatch rng items st)))"
proof (induction items arbitrary: st)
  case Nil
  then show ?case by simp
next
  case (Cons item items)
  obtain batch batchWeights toRemove where st: "st = (batch, batchWeights, toRemove)"
    by (cases st)
  from Cons.prems st have J: "batch_within limits batch batchWeights" by simp
  show ?case
  proof (cases "fitsBatch (rng item) batchWeights item")
    case Drop
    with Cons.IH [of "(batch, batchWeights, toRemove @ [item])"] J st show ?thesis by simp
  next
    case Stop
    with J st show ?thesis by simp
  next
    case Skip
    with Cons.IH [of "(batch, batchWeights, toRemove)"] J st show ?thesis by simp
  next
    case Fits
    from batch_within_step [OF small r [rule_format] J Fits]
    have "batch_within limits (batch @ [item]) (addBatchWeights batchWeights item)" .
    with Cons.IH [of "(batch @ [item], addBatchWeights batchWeights item, toRemove)"] Fits st
    show ?thesis by simp
  qed
qed

lemma batch_within_init:
  "batch_within limits [] (map_of (map (\<lambda>(w, _). (w, 0)) limits))"
proof -
  have "map_of (map (\<lambda>(w, _). (w, 0::u64)) limits) d = Some 0" if "(d, l) \<in> set limits" for d l
    using that by (induction limits) auto
  then show ?thesis
    by (auto simp: batch_within_def batch_weight_def)
qed

lemma GetBatch_within_limits:
  assumes rng: "range_of q rng"
    and small: "\<forall>(d, l) \<in> set (weightLimits q). unat l < 2 ^ 63"
    and res: "fst (GetBatch rng q force) = Inr batch"
    and dl: "(d, l) \<in> set (weightLimits q)"
  shows "batch_weight batch d \<le> unat l"
proof (cases "\<not> list_ex (\<lambda>(k, v). poolWeights q k \<ge> v) (weightLimits q) \<and> \<not> force")
  case True
  with res have "batch = []" by (auto simp: GetBatch_def)
  then show ?thesis by (simp add: batch_weight_def)
next
  case False
  let ?bw = "map_of (map (\<lambda>(w, _). (w, 0::u64)) (weightLimits q))"
  let ?d = "descendBatch rng (Descend (priorityIndex q)) ([], ?bw, [])"
  from rng have r: "\<forall>item. set (rng item) = set (weightLimits q)"
    by (auto simp: range_of_def dest: mset_eq_setD)
  from res False have b: "batch = fst ?d"
    by (auto simp: GetBatch_def Let_def split: prod.splits option.splits)
  have "batch_within (weightLimits q) (fst ?d) (fst (snd ?d))"
    by (rule descendBatch_within [OF small r]) (simp add: batch_within_init)
  with dl b show ?thesis
    by (auto simp: batch_within_def word_le_nat_alt)
qed

section \<open>A prioritized batch with limit 0\<close>

text \<open>
  Claim C7, at an input where the code departs from it. The length of the batch is
  compared with the limit after the transaction has been appended, so with limit 0 and one
  transaction in the pool \<^verbatim>\<open>GetPrioritizedBatch\<close> returns that transaction: one more than
  the limit.
\<close>

theorem GetPrioritizedBatch_limit_zero:
  "GetPrioritizedBatch single_queue None 0 = (Inr [checkedTx 1 5 10], single_queue) \<and>
   length [checkedTx 1 5 10] > unat (0 :: u32)"
  by (simp add: single_queue_def GetPrioritizedBatch_def prioritizedFrom_def
      DescendLessOrEqual_def queue_eval)

text \<open>
  For a limit of at least 1, and an index in ascending order, the batch has at most that
  many transactions and is in order of priority, highest first.
\<close>

lemma descendPrioritized_length:
  "length (fst st) < unat limit \<Longrightarrow>
   length (fst (descendPrioritized limits offset limit items st)) \<le> unat limit"
proof (induction limits offset limit items st rule: descendPrioritized.induct)
  case (1 limits offset limit st)
  then show ?case by simp
next
  case (2 limits offset limit item items batch toRemove)
  from "2.prems" have lt: "length batch < unat limit" by simp
  have "unat limit < 2 ^ 32" using unsigned_less [of limit] by simp
  with lt have "unat (of_nat (Suc (length batch)) :: u32) = Suc (length batch)"
    unfolding unat_of_nat by simp
  then have ge: "(of_nat (Suc (length batch)) :: u32) \<ge> limit \<longleftrightarrow> unat limit \<le> Suc (length batch)"
    by (simp add: word_le_nat_alt)
  show ?case
  proof (cases "list_ex (\<lambda>(w, l). Weight item w > l) limits")
    case True
    with "2.IH"(1) lt show ?thesis by simp
  next
    case heavy: False
    show ?thesis
    proof (cases "offset = Some (Hash item)")
      case True
      with heavy "2.IH"(2) lt show ?thesis by simp
    next
      case False
      show ?thesis
      proof (cases "(of_nat (length (batch @ [item])) :: u32) \<ge> limit")
        case True
        with heavy False lt show ?thesis by simp
      next
        case more: False
        with ge have "length (batch @ [item]) < unat limit" by simp
        with "2.IH"(3) [OF heavy False more] heavy False more show ?thesis by simp
      qed
    qed
  qed
qed

lemma descendPrioritized_order:
  "sorted_wrt by_priority (fst st @ items) \<Longrightarrow>
   sorted_wrt by_priority (fst (descendPrioritized limits offset limit items st))"
proof (induction limits offset limit items st rule: descendPrioritized.induct)
  case (1 limits offset limit st)
  then show ?case by simp
next
  case (2 limits offset limit item items batch toRemove)
  from "2.prems" have drop: "sorted_wrt by_priority (batch @ items)"
    and keep: "sorted_wrt by_priority ((batch @ [item]) @ items)"
    and pre: "sorted_wrt by_priority (batch @ [item])"
    by (auto simp: sorted_wrt_append)
  show ?case
  proof (cases "list_ex (\<lambda>(w, l). Weight item w > l) limits")
    case True
    with "2.IH"(1) drop show ?thesis by simp
  next
    case heavy: False
    show ?thesis
    proof (cases "offset = Some (Hash item)")
      case True
      with heavy "2.IH"(2) drop show ?thesis by simp
    next
      case False
      show ?thesis
      proof (cases "(of_nat (length (batch @ [item])) :: u32) \<ge> limit")
        case True
        with heavy False pre show ?thesis by simp
      next
        case more: False
        with "2.IH"(3) [OF heavy False more] heavy False keep show ?thesis by simp
      qed
    qed
  qed
qed

lemma Less_by_priority: "Less a b \<Longrightarrow> by_priority b a"
  by (auto simp: Less_def by_priority_def split: if_splits)

lemma DescendLessOrEqual_order:
  assumes "sorted_wrt Less idx"
  shows "sorted_wrt by_priority (DescendLessOrEqual pivot idx)"
proof -
  have "sorted_wrt (\<lambda>a b. by_priority b a) xs" if "sorted_wrt Less xs" for xs
    using that by (rule sorted_wrt_mono_rel [rotated]) (simp add: Less_by_priority)
  with assms show ?thesis
    by (simp add: DescendLessOrEqual_def sorted_wrt_rev sorted_wrt_filter split: option.splits)
qed

lemma prioritizedFrom_bound_and_order:
  assumes "sorted_wrt Less (priorityIndex q)" and "limit \<noteq> 0"
    and "fst (prioritizedFrom q offsetItem offset limit) = Inr batch"
  shows "length batch \<le> unat limit \<and> sorted_wrt by_priority batch"
proof -
  let ?items = "DescendLessOrEqual offsetItem (priorityIndex q)"
  let ?d = "descendPrioritized (weightLimits q) offset limit ?items ([], [])"
  from assms(3) have b: "batch = fst ?d"
    by (auto simp: prioritizedFrom_def split: prod.splits option.splits)
  from assms(2) have "0 < unat limit" by (simp add: unat_gt_0)
  then have "length (fst ?d) \<le> unat limit"
    by (intro descendPrioritized_length) simp
  moreover have "sorted_wrt by_priority (fst ?d)"
    using DescendLessOrEqual_order [OF assms(1)] by (intro descendPrioritized_order) simp
  ultimately show ?thesis using b by simp
qed

lemma GetPrioritizedBatch_bound_and_order:
  assumes "sorted_wrt Less (priorityIndex q)" and "limit \<noteq> 0"
    and "fst (GetPrioritizedBatch q offset limit) = Inr batch"
  shows "length batch \<le> unat limit \<and> sorted_wrt by_priority batch"
proof (cases offset)
  case None
  with assms prioritizedFrom_bound_and_order [of q limit None offset batch] show ?thesis
    by (simp add: GetPrioritizedBatch_def)
next
  case (Some h)
  show ?thesis
  proof (cases "transactions q h")
    case None
    with Some assms(3) show ?thesis by (auto simp: GetPrioritizedBatch_def)
  next
    case (Some offsetItem)
    with \<open>offset = Some h\<close> assms
      prioritizedFrom_bound_and_order [of q limit "Some offsetItem" offset batch]
    show ?thesis by (simp add: GetPrioritizedBatch_def)
  qed
qed

section \<open>The order of the index\<close>

lemma Less_irrefl: "\<not> Less a a"
  by (simp add: Less_def)

lemma Less_trans: "Less a b \<Longrightarrow> Less b c \<Longrightarrow> Less a c"
  by (auto simp: Less_def split: if_splits)

lemma Less_asym: "Less a b \<Longrightarrow> \<not> Less b a"
  by (auto simp: Less_def split: if_splits)

lemma same_key_iff: "same_key a b \<longleftrightarrow> Priority a = Priority b \<and> Hash a = Hash b"
  by (auto simp: same_key_def Less_def)

lemma sorted_index_distinct: "sorted_wrt Less xs \<Longrightarrow> distinct xs"
  by (induction xs) (auto simp: Less_irrefl)

lemma set_ReplaceOrInsert:
  "\<forall>y \<in> set xs. \<not> same_key x y \<Longrightarrow> set (ReplaceOrInsert x xs) = insert x (set xs)"
  by (induction xs) (auto simp: same_key_def)

lemma length_ReplaceOrInsert:
  "\<forall>y \<in> set xs. \<not> same_key x y \<Longrightarrow> length (ReplaceOrInsert x xs) = Suc (length xs)"
  by (induction xs) (auto simp: same_key_def)

lemma sorted_ReplaceOrInsert:
  "sorted_wrt Less xs \<Longrightarrow> \<forall>y \<in> set xs. \<not> same_key x y \<Longrightarrow> sorted_wrt Less (ReplaceOrInsert x xs)"
proof (induction xs)
  case Nil
  then show ?case by simp
next
  case (Cons y ys)
  show ?case
  proof (cases "Less x y")
    case True
    with Cons.prems show ?thesis by (auto intro: Less_trans)
  next
    case False
    with Cons.prems have yx: "Less y x" by (auto simp: same_key_def)
    with Cons show ?thesis
      by (auto simp: False set_ReplaceOrInsert)
  qed
qed

lemma Delete_ReplaceOrInsert:
  "sorted_wrt Less xs \<Longrightarrow> \<forall>y \<in> set xs. \<not> same_key x y \<Longrightarrow> Delete x (ReplaceOrInsert x xs) = xs"
proof (induction xs)
  case Nil
  then show ?case by (simp add: same_key_def Less_irrefl)
next
  case (Cons y ys)
  then show ?case
    by (auto simp: same_key_def Less_irrefl)
qed

lemma Delete_member:
  "sorted_wrt Less xs \<Longrightarrow> x \<in> set xs \<Longrightarrow>
   set (Delete x xs) = set xs - {x} \<and> sorted_wrt Less (Delete x xs) \<and>
   Suc (length (Delete x xs)) = length xs"
proof (induction xs)
  case Nil
  then show ?case by simp
next
  case (Cons y ys)
  show ?case
  proof (cases "same_key x y")
    case True
    have "x = y"
    proof (rule ccontr)
      assume "x \<noteq> y"
      with Cons.prems have "x \<in> set ys" by simp
      with Cons.prems have "Less y x" by simp
      with True show False by (simp add: same_key_def)
    qed
    moreover from Cons.prems have "y \<notin> set ys" by (auto simp: Less_irrefl)
    ultimately show ?thesis using Cons.prems True by auto
  next
    case False
    then have "x \<noteq> y" by (auto simp: same_key_def Less_irrefl)
    with Cons.prems have xin: "x \<in> set ys" by simp
    from Cons.prems have s: "sorted_wrt Less ys" by simp
    from Cons.IH [OF s xin] Cons.prems False \<open>x \<noteq> y\<close> show ?thesis by auto
  qed
qed

section \<open>The invariant of the queue\<close>

lemma agree_inj: "indices_agree q \<Longrightarrow> inj_on Hash (set (priorityIndex q))"
  by (rule inj_onI) (metis indices_agree_def option.inject)

lemma agree_card: 
  assumes "indices_agree q"
  shows "card (dom (transactions q)) = length (priorityIndex q)"
proof -
  have "card (dom (transactions q)) = card (Hash ` set (priorityIndex q))"
    using assms by (simp add: indices_agree_def)
  also have "\<dots> = card (set (priorityIndex q))"
    by (rule card_image [OF agree_inj [OF assms]])
  also have "\<dots> = length (priorityIndex q)"
    using assms by (simp add: indices_agree_def distinct_card sorted_index_distinct)
  finally show ?thesis .
qed

lemma agree_lookup:
  assumes "indices_agree q" and "transactions q h = Some t"
  shows "t \<in> set (priorityIndex q) \<and> Hash t = h"
proof -
  from assms have "h \<in> Hash ` set (priorityIndex q)"
    by (auto simp: indices_agree_def)
  then obtain t' where t': "t' \<in> set (priorityIndex q)" "h = Hash t'" by auto
  with assms have "transactions q h = Some t'" by (simp add: indices_agree_def)
  with assms t' show ?thesis by simp
qed

lemma inv_checkSizes: "queue_inv q \<Longrightarrow> checkSizes q = None"
  by (simp add: queue_inv_def checkSizes_def agree_card count_in_step_def)

lemma inv_new: "queue_inv (newPriorityQueue n limits)"
  by (simp add: queue_inv_def indices_agree_def count_in_step_def newPriorityQueue_def)

lemma inv_lowestPriority [simp]: "queue_inv (q\<lparr>lowestPriority := p\<rparr>) = queue_inv q"
  by (simp add: queue_inv_def indices_agree_def count_in_step_def)

lemma inv_remove_one:
  assumes inv: "queue_inv q" and i: "transactions q (Hash i) = Some i"
  shows "queue_inv (q\<lparr> transactions := (transactions q)(Hash i := None),
            priorityIndex := Delete i (priorityIndex q),
            poolWeights := (\<lambda>k. poolWeights q k - Weight i k) \<rparr>)"
proof -
  let ?idx = "priorityIndex q" and ?m = "transactions q"
  from inv have agree: "indices_agree q" and step: "count_in_step q"
    by (simp_all add: queue_inv_def)
  from agree have sorted: "sorted_wrt Less ?idx" 
    and look: "\<And>t. t \<in> set ?idx \<Longrightarrow> ?m (Hash t) = Some t"
    and dom: "dom ?m = Hash ` set ?idx"
    by (simp_all add: indices_agree_def)
  from agree_lookup [OF agree i] have mem: "i \<in> set ?idx" by simp
  from Delete_member [OF sorted mem]
  have dset: "set (Delete i ?idx) = set ?idx - {i}"
    and dsorted: "sorted_wrt Less (Delete i ?idx)"
    and dlen: "Suc (length (Delete i ?idx)) = length ?idx"
    by simp_all
  have inj: "inj_on Hash (set ?idx)" by (rule agree_inj [OF agree])
  have hash_ne: "Hash t \<noteq> Hash i" if "t \<in> set ?idx - {i}" for t
    using inj that mem by (auto dest: inj_onD)
  have b: "\<forall>t \<in> set (Delete i ?idx). (?m(Hash i := None)) (Hash t) = Some t"
    unfolding dset using hash_ne look by simp
  have "Hash ` (set ?idx - {i}) = Hash ` set ?idx - Hash ` {i}"
    using inj mem by (intro inj_on_image_set_diff [where C = "set ?idx"]) auto
  then have c: "dom (?m(Hash i := None)) = Hash ` set (Delete i ?idx)"
    unfolding dset using dom by simp
  have agree': "indices_agree (q\<lparr> transactions := ?m(Hash i := None),
            priorityIndex := Delete i ?idx,
            poolWeights := (\<lambda>k. poolWeights q k - Weight i k) \<rparr>)"
    using dsorted b c by (simp add: indices_agree_def)
  from step have w: "\<And>t. t \<in> set ?idx \<Longrightarrow> Weight t WeightCount = 1"
    and cnt: "poolWeights q WeightCount = of_nat (length ?idx)"
    by (simp_all add: count_in_step_def)
  have "(of_nat (length ?idx) :: u64) = of_nat (length (Delete i ?idx)) + 1"
    unfolding dlen [symmetric] by simp
  then have "poolWeights q WeightCount - Weight i WeightCount = of_nat (length (Delete i ?idx))"
    using cnt w [OF mem] by simp
  then have step': "count_in_step (q\<lparr> transactions := ?m(Hash i := None),
            priorityIndex := Delete i ?idx,
            poolWeights := (\<lambda>k. poolWeights q k - Weight i k) \<rparr>)"
    using w by (simp add: count_in_step_def dset)
  from agree' step' show ?thesis by (simp add: queue_inv_def)
qed


lemma inv_removeItems:
  "queue_inv q \<Longrightarrow> \<forall>i \<in> set items. \<forall>t. transactions q (Hash i) = Some t \<longrightarrow> t = i \<Longrightarrow>
   queue_inv (removeItems q items)"
proof (induction items arbitrary: q)
  case Nil
  then show ?case by simp
next
  case (Cons i items)
  show ?case
  proof (cases "transactions q (Hash i)")
    case None
    with Cons show ?thesis by simp
  next
    case (Some t)
    with Cons.prems have i: "transactions q (Hash i) = Some i" by simp
    let ?q = "q\<lparr> transactions := (transactions q)(Hash i := None),
            priorityIndex := Delete i (priorityIndex q),
            poolWeights := (\<lambda>k. poolWeights q k - Weight i k) \<rparr>"
    have "queue_inv ?q" by (rule inv_remove_one [OF Cons.prems(1) i])
    moreover have "\<forall>j \<in> set items. \<forall>t. transactions ?q (Hash j) = Some t \<longrightarrow> t = j"
      using Cons.prems(2) by (simp split: if_splits)
    ultimately have "queue_inv (removeItems ?q items)" by (rule Cons.IH)
    with i show ?thesis by simp
  qed
qed

lemma inv_removeTxsLocked:
  assumes "queue_inv q" and "set items \<subseteq> set (priorityIndex q)"
  shows "fst (removeTxsLocked q items) = None \<and> queue_inv (snd (removeTxsLocked q items))"
proof -
  from assms have "\<forall>i \<in> set items. \<forall>t. transactions q (Hash i) = Some t \<longrightarrow> t = i"
    by (auto simp: queue_inv_def indices_agree_def)
  with assms have "queue_inv (removeItems q items)" by (simp add: inv_removeItems)
  with assms(1) show ?thesis
    by (simp add: removeTxsLocked_def Let_def inv_checkSizes split: option.splits)
qed


lemma inv_insertTx:
  assumes inv: "queue_inv q" and new: "transactions q (Hash tx) = None"
    and one: "Weight tx WeightCount = 1"
  shows "fst (insertTx q tx) = None \<and> queue_inv (snd (insertTx q tx))"
proof -
  let ?idx = "priorityIndex q" and ?m = "transactions q"
  from inv have agree: "indices_agree q" and step: "count_in_step q"
    by (simp_all add: queue_inv_def)
  from agree have sorted: "sorted_wrt Less ?idx" 
    and look: "\<And>t. t \<in> set ?idx \<Longrightarrow> ?m (Hash t) = Some t"
    and dom: "dom ?m = Hash ` set ?idx"
    by (simp_all add: indices_agree_def)
  have ne: "Hash t \<noteq> Hash tx" if "t \<in> set ?idx" for t
    using look [OF that] new by auto
  then have fresh: "\<forall>y \<in> set ?idx. \<not> same_key tx y"
    by (fastforce simp: same_key_iff)
  note iset = set_ReplaceOrInsert [OF fresh]
  let ?q = "q\<lparr> priorityIndex := ReplaceOrInsert tx ?idx,
                 transactions := ?m(Hash tx \<mapsto> tx),
                 poolWeights := (\<lambda>k. poolWeights q k + Weight tx k) \<rparr>"
  have b: "\<forall>t \<in> set (ReplaceOrInsert tx ?idx). (?m(Hash tx \<mapsto> tx)) (Hash t) = Some t"
    unfolding iset using ne look by simp
  have c: "dom (?m(Hash tx \<mapsto> tx)) = Hash ` set (ReplaceOrInsert tx ?idx)"
    unfolding iset using dom by simp
  have agree': "indices_agree ?q"
    using sorted_ReplaceOrInsert [OF sorted fresh] b c by (simp add: indices_agree_def)
  from step have w: "\<And>t. t \<in> set ?idx \<Longrightarrow> Weight t WeightCount = 1"
    and cnt: "poolWeights q WeightCount = of_nat (length ?idx)"
    by (simp_all add: count_in_step_def)
  have step': "count_in_step ?q"
    using w cnt one by (simp add: count_in_step_def iset length_ReplaceOrInsert [OF fresh])
  from agree' step' have "queue_inv ?q" by (simp add: queue_inv_def)
  then show ?thesis
    by (simp add: insertTx_def Let_def inv_checkSizes)
qed

lemma removeItems_None:
  "transactions q h = None \<Longrightarrow> transactions (removeItems q items) h = None"
  by (induction items arbitrary: q) simp_all

lemma removeTxsLocked_transactions:
  "transactions (snd (removeTxsLocked q items)) = transactions (removeItems q items)"
  by (simp add: removeTxsLocked_def Let_def split: option.splits)


lemma checkTxLocked_None: "checkTxLocked q tx = None \<Longrightarrow> transactions q (Hash tx) = None"
  by (simp add: checkTxLocked_def isQueuedLocked_def split: if_splits)

lemma checkTxLocked_Some: "checkTxLocked q tx = Some e \<Longrightarrow> Some e \<in> returned_errors"
  by (auto simp: checkTxLocked_def returned_errors_def split: if_splits)

lemma Min_item_member: "Min_item idx = Some lpi \<Longrightarrow> lpi \<in> set idx"
  by (auto simp: Min_item_def split: list.splits)

lemma inv_Add:
  assumes inv: "queue_inv q" and one: "Weight tx WeightCount = 1"
  shows "fst (Add q tx) \<in> insert None returned_errors \<and> queue_inv (snd (Add q tx))"
proof (cases "maxTxPoolSize q \<le> poolWeights q WeightCount \<and> Priority tx \<le> lowestPriority q")
  case True
  with inv show ?thesis by (simp add: Add_def returned_errors_def)
next
  case full: False
  show ?thesis
  proof (cases "checkTxLocked q tx")
    case (Some e)
    with full inv checkTxLocked_Some [OF Some] show ?thesis
      by (auto simp: Add_def Let_def)
  next
    case None
    note new = checkTxLocked_None [OF None]
    show ?thesis
    proof (cases "maxTxPoolSize q \<le> poolWeights q WeightCount")
      case False
      with None inv_insertTx [OF inv new one] show ?thesis by (simp add: Add_def)
    next
      case pop: True
      show ?thesis
      proof (cases "Min_item (priorityIndex q)")
        case empty: None
        with None pop full inv_insertTx [OF inv new one] show ?thesis by (simp add: Add_def)
      next
        case (Some lpi)
        obtain p q' where r: "removeTxsLocked q [lpi] = (p, q')"
          by (cases "removeTxsLocked q [lpi]")
        from Min_item_member [OF Some] have "set [lpi] \<subseteq> set (priorityIndex q)" by simp
        from inv_removeTxsLocked [OF inv this] r have p: "p = None" and inv': "queue_inv q'"
          by simp_all
        have "transactions q' (Hash tx) = None"
          using removeTxsLocked_transactions [of q "[lpi]"] r removeItems_None [OF new, of "[lpi]"]
          by simp
        from inv_insertTx [OF inv' this one] None pop full Some r p show ?thesis
          by (simp add: Add_def)
      qed
    qed
  qed
qed

lemma descendBatch_toRemove:
  "set (snd (snd (descendBatch rng items st))) \<subseteq> set (snd (snd st)) \<union> set items"
proof (induction rng items st rule: descendBatch.induct)
  case (1 rng st)
  then show ?case by simp
next
  case (2 rng item items batch batchWeights toRemove)
  then show ?case
    by (cases "fitsBatch (rng item) batchWeights item") auto
qed

lemma inv_GetBatch:
  assumes inv: "queue_inv q"
  shows "(\<exists>b. fst (GetBatch rng q force) = Inr b) \<and> queue_inv (snd (GetBatch rng q force))"
proof (cases "\<not> list_ex (\<lambda>(k, v). poolWeights q k \<ge> v) (weightLimits q) \<and> \<not> force")
  case True
  with inv show ?thesis by (simp add: GetBatch_def)
next
  case False
  let ?bw = "map_of (map (\<lambda>(w, _). (w, 0::u64)) (weightLimits q))"
  obtain batch bw' toRemove where
    d: "descendBatch rng (Descend (priorityIndex q)) ([], ?bw, []) = (batch, bw', toRemove)"
    by (cases "descendBatch rng (Descend (priorityIndex q)) ([], ?bw, [])")
  have "set toRemove \<subseteq> set (priorityIndex q)"
    using descendBatch_toRemove [of rng "Descend (priorityIndex q)" "([], ?bw, [])"] d
    by (simp add: Descend_def)
  from inv_removeTxsLocked [OF inv this] False d show ?thesis
    by (cases "removeTxsLocked q toRemove") (auto simp: GetBatch_def Let_def)
qed

lemma descendPrioritized_toRemove:
  "set (snd (descendPrioritized limits offset limit items st)) \<subseteq> set (snd st) \<union> set items"
  by (induction limits offset limit items st rule: descendPrioritized.induct) auto

lemma inv_prioritizedFrom:
  assumes inv: "queue_inv q"
  shows "(\<exists>b. fst (prioritizedFrom q offsetItem offset limit) = Inr b) \<and>
         queue_inv (snd (prioritizedFrom q offsetItem offset limit))"
proof -
  let ?items = "DescendLessOrEqual offsetItem (priorityIndex q)"
  obtain batch toRemove where
    d: "descendPrioritized (weightLimits q) offset limit ?items ([], []) = (batch, toRemove)"
    by (cases "descendPrioritized (weightLimits q) offset limit ?items ([], [])")
  have "set ?items \<subseteq> set (priorityIndex q)"
    by (auto simp: DescendLessOrEqual_def split: option.splits)
  then have "set toRemove \<subseteq> set (priorityIndex q)"
    using descendPrioritized_toRemove [of "weightLimits q" offset limit ?items "([], [])"] d
    by auto
  from inv_removeTxsLocked [OF inv this] d show ?thesis
    by (cases "removeTxsLocked q toRemove") (auto simp: prioritizedFrom_def)
qed

lemma inv_GetPrioritizedBatch:
  assumes inv: "queue_inv q"
  shows "(\<exists>b. fst (GetPrioritizedBatch q offset limit) = Inr b) \<and>
         queue_inv (snd (GetPrioritizedBatch q offset limit))"
  using inv inv_prioritizedFrom [OF inv]
  by (simp add: GetPrioritizedBatch_def split: option.splits)

lemma inv_RemoveTxBatch:
  assumes inv: "queue_inv q"
  shows "fst (RemoveTxBatch q batch) = None \<and> queue_inv (snd (RemoveTxBatch q batch))"
proof -
  have "set (List.map_filter (\<lambda>txHash. transactions q txHash) batch) \<subseteq> set (priorityIndex q)"
    using inv agree_lookup [of q]
    by (auto simp: List.map_filter_def queue_inv_def)
  from inv_removeTxsLocked [OF inv this] show ?thesis by (simp add: RemoveTxBatch_def)
qed

lemma reachable_inv: "reachable q \<Longrightarrow> queue_inv q"
proof (induction rule: reachable.induct)
  case (reach_new maxPoolSize limits)
  show ?case by (rule inv_new)
next
  case (reach_Add q tx)
  then show ?case by (simp add: inv_Add)
next
  case (reach_GetBatch q rng force)
  then show ?case by (simp add: inv_GetBatch)
next
  case (reach_GetPrioritizedBatch q offset limit)
  then show ?case by (simp add: inv_GetPrioritizedBatch)
next
  case (reach_RemoveTxBatch q batch)
  then show ?case by (simp add: inv_RemoveTxBatch)
next
  case (reach_UpdateMaxPoolSize q maxPoolSize)
  then show ?case
    by (simp add: UpdateMaxPoolSize_def queue_inv_def indices_agree_def count_in_step_def)
next
  case (reach_UpdateWeightLimits q limits)
  then show ?case
    by (simp add: UpdateWeightLimits_def queue_inv_def indices_agree_def count_in_step_def)
next
  case (reach_Clear q)
  show ?case
    by (simp add: Clear_def queue_inv_def indices_agree_def count_in_step_def)
qed

lemma insertTx_frame:
  "maxTxPoolSize (snd (insertTx q tx)) = maxTxPoolSize q \<and>
   weightLimits (snd (insertTx q tx)) = weightLimits q \<and>
   poolWeights (snd (insertTx q tx)) = (\<lambda>k. poolWeights q k + Weight tx k) \<and>
   priorityIndex (snd (insertTx q tx)) = ReplaceOrInsert tx (priorityIndex q) \<and>
   transactions (snd (insertTx q tx)) = (transactions q)(Hash tx \<mapsto> tx)"
  by (simp add: insertTx_def Let_def)


lemma Add_success:
  assumes inv: "queue_inv q" and ok: "fst (Add q tx) = None"
  shows "transactions q (Hash tx) = None \<and>
    (if maxTxPoolSize q \<le> poolWeights q WeightCount
     then (case Min_item (priorityIndex q) of
             None \<Rightarrow> Add q tx = insertTx q tx
           | Some lpi \<Rightarrow> fst (removeTxsLocked q [lpi]) = None \<and>
                Add q tx = insertTx (snd (removeTxsLocked q [lpi])) tx)
     else Add q tx = insertTx q tx)"
proof -
  have c: "checkTxLocked q tx = None"
    using ok by (auto simp: Add_def Let_def split: if_splits option.splits)
  have nf: "\<not> (maxTxPoolSize q \<le> poolWeights q WeightCount \<and> Priority tx \<le> lowestPriority q)"
    using ok by (auto simp: Add_def Let_def split: if_splits)
  show ?thesis
  proof (cases "Min_item (priorityIndex q)")
    case None
    with c nf checkTxLocked_None [OF c] show ?thesis by (simp add: Add_def)
  next
    case (Some lpi)
    from Min_item_member [OF Some] have "set [lpi] \<subseteq> set (priorityIndex q)" by simp
    from inv_removeTxsLocked [OF inv this] have "fst (removeTxsLocked q [lpi]) = None" by simp
    with Some c nf checkTxLocked_None [OF c] show ?thesis
      by (cases "removeTxsLocked q [lpi]") (simp add: Add_def)
  qed
qed

section \<open>The capacity after an admission\<close>


text \<open>The queues of the scenarios below are reachable.\<close>

lemma full_queue_reachable: "reachable full_queue"
proof -
  have "Weight (checkedTx 1 5 10) WeightCount = 1" by (simp add: Weight_def checkedTx_def)
  from reach_Add [OF reach_new this, of 1 "[]"] show ?thesis
    by (simp add: full_queue_def addAll_def)
qed



lemma pair_queue_reachable: "reachable pair_queue"
proof -
  have w: "Weight (checkedTx h p s) WeightCount = 1" for h p s
    by (simp add: Weight_def checkedTx_def)
  show ?thesis
    unfolding pair_queue_def addAll_def fold_simps
    by (intro reach_Add reach_new w)
qed





section \<open>Adding and removing a transaction\<close>

lemma insert_then_remove:
  assumes inv: "queue_inv q" and new: "transactions q (Hash tx) = None"
  shows "RemoveTxBatch (snd (insertTx q tx)) [Hash tx] =
     (None, q\<lparr> lowestPriority := (case priorityIndex q of [] \<Rightarrow> 0 | lpi # _ \<Rightarrow> Priority lpi) \<rparr>)"
proof -
  let ?idx = "priorityIndex q" and ?m = "transactions q"
  let ?r = "q\<lparr> lowestPriority := (case ?idx of [] \<Rightarrow> 0 | lpi # _ \<Rightarrow> Priority lpi) \<rparr>"
  from inv have sorted: "sorted_wrt Less ?idx"
    and look: "\<And>t. t \<in> set ?idx \<Longrightarrow> ?m (Hash t) = Some t"
    by (simp_all add: queue_inv_def indices_agree_def)
  have "Hash t \<noteq> Hash tx" if "t \<in> set ?idx" for t
    using look [OF that] new by auto
  then have fresh: "\<forall>y \<in> set ?idx. \<not> same_key tx y"
    by (fastforce simp: same_key_iff)
  have idx: "Delete tx (ReplaceOrInsert tx ?idx) = ?idx"
    by (rule Delete_ReplaceOrInsert [OF sorted fresh])
  have m: "?m(Hash tx := None) = ?m"
    using new by (simp add: fun_upd_idem)
  have batch: "RemoveTxBatch (snd (insertTx q tx)) [Hash tx] = removeTxsLocked (snd (insertTx q tx)) [tx]"
    unfolding RemoveTxBatch_def by (simp add: List.map_filter_def insertTx_frame)
  have "removeItems (snd (insertTx q tx)) [tx] = q\<lparr> lowestPriority := lowestPriority (snd (insertTx q tx)) \<rparr>"
    by (simp add: insertTx_def Let_def idx m)
  then have "snd (removeTxsLocked (snd (insertTx q tx)) [tx]) = ?r"
    by (simp add: removeTxsLocked_def Let_def Min_item_def split: list.splits)
  moreover have "queue_inv ?r" using inv by simp
  then have "checkSizes ?r = None" by (rule inv_checkSizes)
  moreover have "fst (removeTxsLocked (snd (insertTx q tx)) [tx])
      = checkSizes (snd (removeTxsLocked (snd (insertTx q tx)) [tx]))"
    by (simp add: removeTxsLocked_def Let_def)
  ultimately show ?thesis
    unfolding batch by (simp add: prod_eq_iff)
qed

lemma remove_lowest_state:
  assumes inv: "queue_inv q" and idx: "priorityIndex q = lpi # rest"
  shows "snd (removeTxsLocked q [lpi]) =
     q\<lparr> priorityIndex := rest,
        transactions := (transactions q)(Hash lpi := None),
        poolWeights := (\<lambda>k. poolWeights q k - Weight lpi k),
        lowestPriority := (case rest of [] \<Rightarrow> 0 | x # _ \<Rightarrow> Priority x) \<rparr>"
proof -
  from inv idx have "transactions q (Hash lpi) = Some lpi"
    by (simp add: queue_inv_def indices_agree_def)
  moreover have "same_key lpi lpi" by (simp add: same_key_def Less_irrefl)
  ultimately show ?thesis
    by (simp add: removeTxsLocked_def Let_def idx Min_item_def split: list.splits)
qed

text \<open>
  Claim C8, as amended. After a successful \<^verbatim>\<open>Add\<close> into a reachable queue,
  \<^verbatim>\<open>RemoveTxBatch\<close> of the hash of the added transaction returns without a panic. When
  the queue was below its capacity or empty, it is left as it was before the \<^verbatim>\<open>Add\<close>,
  except that \<^verbatim>\<open>lowestPriority\<close> is the priority of the lowest item, or 0 in an empty
  queue. When the queue was at or above its capacity and not empty, it is left as it was
  without its lowest item, which \<^verbatim>\<open>Add\<close> evicted: that item is gone from both indices,
  its weights are taken off the pool weights, and \<^verbatim>\<open>lowestPriority\<close> is the priority of
  the lowest item that remains, or 0.
\<close>

theorem Add_then_remove:
  assumes reach: "reachable q" and ok: "fst (Add q tx) = None"
  shows "(poolWeights q WeightCount < maxTxPoolSize q \<or> priorityIndex q = [] \<longrightarrow>
      RemoveTxBatch (snd (Add q tx)) [Hash tx] =
        (None, q\<lparr> lowestPriority :=
                    (case priorityIndex q of [] \<Rightarrow> 0 | lpi # _ \<Rightarrow> Priority lpi) \<rparr>)) \<and>
     (\<forall>lpi rest. maxTxPoolSize q \<le> poolWeights q WeightCount \<and> priorityIndex q = lpi # rest \<longrightarrow>
      RemoveTxBatch (snd (Add q tx)) [Hash tx] =
        (None, q\<lparr> priorityIndex := rest,
                  transactions := (transactions q)(Hash lpi := None),
                  poolWeights := (\<lambda>k. poolWeights q k - Weight lpi k),
                  lowestPriority := (case rest of [] \<Rightarrow> 0 | x # _ \<Rightarrow> Priority x) \<rparr>))"
proof (intro conjI impI allI)
  note inv = reachable_inv [OF reach]
  from Add_success [OF inv ok] have new: "transactions q (Hash tx) = None" by simp
  {
    assume "poolWeights q WeightCount < maxTxPoolSize q \<or> priorityIndex q = []"
    then have "Add q tx = insertTx q tx"
      using Add_success [OF inv ok]
      by (cases "priorityIndex q") (auto simp: Min_item_def split: if_splits)
    with insert_then_remove [OF inv new]
    show "RemoveTxBatch (snd (Add q tx)) [Hash tx] =
        (None, q\<lparr> lowestPriority :=
                    (case priorityIndex q of [] \<Rightarrow> 0 | lpi # _ \<Rightarrow> Priority lpi) \<rparr>)"
      by simp
  next
    fix lpi rest
    assume h: "maxTxPoolSize q \<le> poolWeights q WeightCount \<and> priorityIndex q = lpi # rest"
    then have idx: "priorityIndex q = lpi # rest" and m: "Min_item (priorityIndex q) = Some lpi"
      by (simp_all add: Min_item_def)
    let ?q = "snd (removeTxsLocked q [lpi])"
    from Add_success [OF inv ok] h m have a: "Add q tx = insertTx ?q tx" by simp
    from Min_item_member [OF m] have "set [lpi] \<subseteq> set (priorityIndex q)" by simp
    from inv_removeTxsLocked [OF inv this] have inv': "queue_inv ?q" by simp
    have new': "transactions ?q (Hash tx) = None"
      unfolding removeTxsLocked_transactions by (rule removeItems_None [OF new])
    note st = remove_lowest_state [OF inv idx]
    from insert_then_remove [OF inv' new'] a
    have "RemoveTxBatch (snd (Add q tx)) [Hash tx] =
        (None, ?q\<lparr> lowestPriority := (case priorityIndex ?q of [] \<Rightarrow> 0 | x # _ \<Rightarrow> Priority x) \<rparr>)"
      by simp
    also have "?q\<lparr> lowestPriority := (case priorityIndex ?q of [] \<Rightarrow> 0 | x # _ \<Rightarrow> Priority x) \<rparr>
        = q\<lparr> priorityIndex := rest,
                  transactions := (transactions q)(Hash lpi := None),
                  poolWeights := (\<lambda>k. poolWeights q k - Weight lpi k),
                  lowestPriority := (case rest of [] \<Rightarrow> 0 | x # _ \<Rightarrow> Priority x) \<rparr>"
      unfolding st by simp
    finally show "RemoveTxBatch (snd (Add q tx)) [Hash tx] =
        (None, q\<lparr> priorityIndex := rest,
                  transactions := (transactions q)(Hash lpi := None),
                  poolWeights := (\<lambda>k. poolWeights q k - Weight lpi k),
                  lowestPriority := (case rest of [] \<Rightarrow> 0 | x # _ \<Rightarrow> Priority x) \<rparr>)" .
  }
qed

text \<open>
  Instances: a pool of two below its capacity, where the added transaction goes between
  the two and \<^verbatim>\<open>lowestPriority\<close> is 0 before and 5 after; and the full pool of size 1,
  which ends up empty.
\<close>

theorem Add_then_remove_witness:
  "(reachable pair_queue \<and>
    poolWeights pair_queue WeightCount < maxTxPoolSize pair_queue \<and>
    fst (Add pair_queue (checkedTx 3 7 10)) = None \<and>
    priorityIndex pair_queue = [checkedTx 1 5 10, checkedTx 2 9 10] \<and>
    priorityIndex (snd (Add pair_queue (checkedTx 3 7 10))) =
      [checkedTx 1 5 10, checkedTx 3 7 10, checkedTx 2 9 10] \<and>
    lowestPriority pair_queue = 0 \<and>
    RemoveTxBatch (snd (Add pair_queue (checkedTx 3 7 10))) [Hash (checkedTx 3 7 10)] =
      (None, pair_queue\<lparr> lowestPriority := 5 \<rparr>)) \<and>
   (reachable full_queue \<and>
    maxTxPoolSize full_queue \<le> poolWeights full_queue WeightCount \<and>
    fst (Add full_queue (checkedTx 2 7 10)) = None \<and>
    priorityIndex full_queue = [checkedTx 1 5 10] \<and>
    RemoveTxBatch (snd (Add full_queue (checkedTx 2 7 10))) [Hash (checkedTx 2 7 10)] =
      (None, full_queue\<lparr> priorityIndex := [],
                transactions := (transactions full_queue)(Hash (checkedTx 1 5 10) := None),
                poolWeights := (\<lambda>k. poolWeights full_queue k - Weight (checkedTx 1 5 10) k),
                lowestPriority := 0 \<rparr>))"
proof -
  have p: "poolWeights pair_queue WeightCount < maxTxPoolSize pair_queue"
    "fst (Add pair_queue (checkedTx 3 7 10)) = None"
    "priorityIndex pair_queue = [checkedTx 1 5 10, checkedTx 2 9 10]"
    "priorityIndex (snd (Add pair_queue (checkedTx 3 7 10))) =
      [checkedTx 1 5 10, checkedTx 3 7 10, checkedTx 2 9 10]"
    "lowestPriority pair_queue = 0"
    by (simp_all add: pair_queue_def queue_eval)
  have f: "maxTxPoolSize full_queue \<le> poolWeights full_queue WeightCount"
    "fst (Add full_queue (checkedTx 2 7 10)) = None"
    "priorityIndex full_queue = [checkedTx 1 5 10]"
    by (simp_all add: full_queue_def queue_eval)
  have five: "Priority (checkedTx 1 5 10) = 5" by (simp add: checkedTx_def)
  from Add_then_remove [OF pair_queue_reachable p(2)] p(1)
  have "RemoveTxBatch (snd (Add pair_queue (checkedTx 3 7 10))) [Hash (checkedTx 3 7 10)] =
      (None, pair_queue\<lparr> lowestPriority :=
        (case priorityIndex pair_queue of [] \<Rightarrow> 0 | lpi # _ \<Rightarrow> Priority lpi) \<rparr>)"
    by blast
  then have a: "RemoveTxBatch (snd (Add pair_queue (checkedTx 3 7 10))) [Hash (checkedTx 3 7 10)] =
      (None, pair_queue\<lparr> lowestPriority := 5 \<rparr>)"
    by (simp add: p(3) five)
  from Add_then_remove [OF full_queue_reachable f(2), THEN conjunct2, rule_format,
      of "checkedTx 1 5 10" "[]"] f(1) f(3)
  have b: "RemoveTxBatch (snd (Add full_queue (checkedTx 2 7 10))) [Hash (checkedTx 2 7 10)] =
      (None, full_queue\<lparr> priorityIndex := [],
                transactions := (transactions full_queue)(Hash (checkedTx 1 5 10) := None),
                poolWeights := (\<lambda>k. poolWeights full_queue k - Weight (checkedTx 1 5 10) k),
                lowestPriority := 0 \<rparr>)"
    by simp
  from pair_queue_reachable full_queue_reachable p f a b show ?thesis by blast
qed

text \<open>
  Claim C8 as stated fails for a pool at capacity: \<^verbatim>\<open>Add\<close> evicts the lowest item, which
  the removal of the added transaction does not bring back.
\<close>

theorem Add_then_remove_at_capacity:
  "reachable full_queue \<and>
   priorityIndex full_queue = [checkedTx 1 5 10] \<and>
   fst (Add full_queue (checkedTx 2 7 10)) = None \<and>
   priorityIndex (snd (RemoveTxBatch (snd (Add full_queue (checkedTx 2 7 10)))
      [Hash (checkedTx 2 7 10)])) = []"
proof -
  have "priorityIndex full_queue = [checkedTx 1 5 10]"
    and "fst (Add full_queue (checkedTx 2 7 10)) = None"
    and "priorityIndex (snd (RemoveTxBatch (snd (Add full_queue (checkedTx 2 7 10)))
      [Hash (checkedTx 2 7 10)])) = []"
    by (simp_all add: full_queue_def RemoveTxBatch_def List.map_filter_def queue_eval)
  with full_queue_reachable show ?thesis by simp
qed

section \<open>The sizes of the indices and the count weight\<close>

text \<open>
  Claim C9. In every queue that the public methods produce from a new queue, given that
  every transaction handed to \<^verbatim>\<open>Add\<close> has count weight 1, the map and the tree have the
  same number of entries, and that number as a \<^verbatim>\<open>uint64\<close> is the count weight of the
  pool. The next method called on such a queue does not reach a size panic, neither in
  \<^verbatim>\<open>Add\<close> nor in the removal that \<^verbatim>\<open>GetBatch\<close>, \<^verbatim>\<open>GetPrioritizedBatch\<close> and
  \<^verbatim>\<open>RemoveTxBatch\<close> end with. No assumption on the hashes is needed: \<^verbatim>\<open>Add\<close> refuses a
  hash that is queued.
\<close>

theorem reachable_sizes_agree:
  assumes reach: "reachable q"
  shows "card (dom (transactions q)) = length (priorityIndex q) \<and>
     (of_nat (card (dom (transactions q))) :: u64) = poolWeights q WeightCount \<and>
     (\<forall>tx. Weight tx WeightCount = 1 \<longrightarrow>
        fst (Add q tx) \<noteq> Some InconsistentIndexMap \<and> fst (Add q tx) \<noteq> Some InconsistentMapCount) \<and>
     (\<forall>rng force. \<exists>b. fst (GetBatch rng q force) = Inr b) \<and>
     (\<forall>offset limit. \<exists>b. fst (GetPrioritizedBatch q offset limit) = Inr b) \<and>
     (\<forall>batch. fst (RemoveTxBatch q batch) = None)"
proof -
  note inv = reachable_inv [OF reach]
  then have agree: "indices_agree q" and step: "count_in_step q"
    by (simp_all add: queue_inv_def)
  have "card (dom (transactions q)) = length (priorityIndex q)"
    by (rule agree_card [OF agree])
  moreover have "(of_nat (card (dom (transactions q))) :: u64) = poolWeights q WeightCount"
    using step by (simp add: agree_card [OF agree] count_in_step_def)
  moreover have "fst (Add q tx) \<noteq> Some InconsistentIndexMap \<and> fst (Add q tx) \<noteq> Some InconsistentMapCount"
    if "Weight tx WeightCount = 1" for tx
    using inv_Add [OF inv that] by (auto simp: returned_errors_def)
  ultimately show ?thesis
    using inv_GetBatch [OF inv] inv_GetPrioritizedBatch [OF inv] inv_RemoveTxBatch [OF inv]
    by simp
qed

theorem reachable_sizes_agree_witness:
  "reachable full_queue \<and>
   card (dom (transactions full_queue)) = 1 \<and> length (priorityIndex full_queue) = 1 \<and>
   poolWeights full_queue WeightCount = 1 \<and>
   Weight (checkedTx 2 7 10) WeightCount = 1 \<and>
   fst (Add full_queue (checkedTx 2 7 10)) \<noteq> Some InconsistentIndexMap \<and>
   fst (Add full_queue (checkedTx 2 7 10)) \<noteq> Some InconsistentMapCount"
proof -
  have l: "length (priorityIndex full_queue) = 1"
    by (simp add: full_queue_def queue_eval)
  have w: "Weight (checkedTx 2 7 10) WeightCount = 1"
    by (simp add: Weight_def checkedTx_def)
  from reachable_sizes_agree [OF full_queue_reachable] l w full_queue_reachable
  show ?thesis by auto
qed

end
